theory Spec2Isabelle
  imports Main "HOL-Library.Log_Nat" "HOL-Library.Multiset"
begin

section \<open>JavaScript numbers\<close>

text \<open>
  Both variants of \<^verbatim>\<open>ProductionPlan\<close> compute with the \<^verbatim>\<open>+\<close> of JavaScript, whose
  numbers are IEEE 754 binary64 values. A number is \<open>NaN\<close>, an infinity, or a finite double,
  which is kept as the rational it denotes. The two zeros are identified: they are equal
  under \<^verbatim>\<open>===\<close>, and the sign of a zero has no influence on any sum that is not itself a zero.
\<close>

datatype jsnum = NaN | PosInf | NegInf | Fin rat

text \<open>Rounding to an integer, ties to the even neighbour.\<close>

definition rne :: "rat \<Rightarrow> int" where
  "rne x =
     (let f = \<lfloor>x\<rfloor>; d = x - of_int f
      in if d < 1 / 2 then f else if 1 / 2 < d then f + 1 else if even f then f else f + 1)"

text \<open>The binary exponent \<open>\<lfloor>log\<^sub>2 q\<rfloor>\<close> of a positive rational.\<close>

definition ilog2 :: "rat \<Rightarrow> int" where
  "ilog2 q = (if 1 \<le> q then bitlen \<lfloor>q\<rfloor> - 1 else - bitlen (\<lceil>1 / q\<rceil> - 1))"

text \<open>
  Round-to-nearest-even into binary64: 53 significant bits, the least exponent of a unit in
  the last place is \<open>-1074\<close> (subnormals), and a rounded magnitude of \<open>2\<^sup>1\<^sup>0\<^sup>2\<^sup>4\<close> or more
  overflows to an infinity.
\<close>

definition round_double :: "rat \<Rightarrow> jsnum" where
  "round_double q =
     (if q = 0 then Fin 0
      else let e = max (ilog2 \<bar>q\<bar> - 52) (- 1074);
               r = of_int (rne (\<bar>q\<bar> / 2 powi e)) * 2 powi e
           in if 2 ^ 1024 \<le> r then (if 0 < q then PosInf else NegInf)
              else Fin (sgn q * r))"

text \<open>A rational is a double when rounding leaves it as it is.\<close>

definition is_double :: "rat \<Rightarrow> bool" where
  "is_double q = (round_double q = Fin q)"

text \<open>Number addition: the exact sum of two finite doubles, rounded.\<close>

fun num_add :: "jsnum \<Rightarrow> jsnum \<Rightarrow> jsnum" where
  "num_add NaN _ = NaN"
| "num_add _ NaN = NaN"
| "num_add PosInf NegInf = NaN"
| "num_add NegInf PosInf = NaN"
| "num_add PosInf _ = PosInf"
| "num_add _ PosInf = PosInf"
| "num_add NegInf _ = NegInf"
| "num_add _ NegInf = NegInf"
| "num_add (Fin a) (Fin b) = round_double (a + b)"

section \<open>Values and adjustment objects\<close>

text \<open>
  The values that reach \<^verbatim>\<open>+\<close> here are numbers and \<^verbatim>\<open>undefined\<close> (a constructor argument
  that was omitted, a property that is absent). \<^verbatim>\<open>+\<close> converts both operands with ToNumber,
  and \<^verbatim>\<open>undefined\<close> converts to \<open>NaN\<close>.
\<close>

datatype jsval = Undefined | Number jsnum

fun ToNumber :: "jsval \<Rightarrow> jsnum" where
  "ToNumber Undefined = NaN"
| "ToNumber (Number n) = n"

definition js_plus :: "jsval \<Rightarrow> jsval \<Rightarrow> jsval" where
  "js_plus a b = Number (num_add (ToNumber a) (ToNumber b))"

text \<open>
  An adjustment is an object read through its \<^verbatim>\<open>amount\<close> property only. What is handed to
  \<^verbatim>\<open>applyAdjustment\<close> is such an object or \<^verbatim>\<open>undefined\<close>/\<^verbatim>\<open>null\<close>; reading
  \<^verbatim>\<open>.amount\<close> of the latter throws a TypeError.
\<close>

record adjustment =
  amount :: jsval

datatype jsref = Nullish | Obj adjustment

datatype error = TypeError

fun get_amount :: "jsref \<Rightarrow> error + jsval" where
  "get_amount Nullish = Inl TypeError"
| "get_amount (Obj a) = Inr (amount a)"

text \<open>
  \<^verbatim>\<open>this._adjustments.reduce((sum, a) => sum + a.amount, 0)\<close>: a left fold over the
  accumulator \<^verbatim>\<open>sum\<close> (here \<open>acc\<close>), started by the caller at the number 0; a throw of the
  callback ends it.
\<close>

fun reduce_amounts :: "jsval \<Rightarrow> jsref list \<Rightarrow> error + jsval" where
  "reduce_amounts acc [] = Inr acc"
| "reduce_amounts acc (a # as) =
     (case get_amount a of
        Inl e \<Rightarrow> Inl e
      | Inr v \<Rightarrow> reduce_amounts (js_plus acc v) as)"

section \<open>The multiple-sources variant\<close>

record ms_ProductionPlan =
  ms_initialProduction :: jsval
  ms_adjustments :: "jsref list"

text \<open>
  \<^verbatim>\<open>constructor(production)\<close>, called with a list of arguments: a parameter without an
  argument is \<^verbatim>\<open>undefined\<close>, arguments beyond the first are dropped.
\<close>

definition ms_new :: "jsval list \<Rightarrow> ms_ProductionPlan" where
  "ms_new args =
     \<lparr>ms_initialProduction = (case args of [] \<Rightarrow> Undefined | production # _ \<Rightarrow> production),
      ms_adjustments = []\<rparr>"

definition ms_production :: "ms_ProductionPlan \<Rightarrow> error + jsval" where
  "ms_production p =
     (case reduce_amounts (Number (Fin 0)) (ms_adjustments p) of
        Inl e \<Rightarrow> Inl e
      | Inr s \<Rightarrow> Inr (js_plus (ms_initialProduction p) s))"

definition ms_applyAdjustment :: "ms_ProductionPlan \<Rightarrow> jsref \<Rightarrow> ms_ProductionPlan" where
  "ms_applyAdjustment p anAdjustment =
     p\<lparr>ms_adjustments := ms_adjustments p @ [anAdjustment]\<rparr>"

section \<open>The single-source variant\<close>

record ss_ProductionPlan =
  ss_adjustments :: "jsref list"
  ss_stored_production :: jsval

text \<open>\<^verbatim>\<open>constructor()\<close> has no parameter: whatever is passed is dropped.\<close>

definition ss_new :: "jsval list \<Rightarrow> ss_ProductionPlan" where
  "ss_new args = \<lparr>ss_adjustments = [], ss_stored_production = Number (Fin 0)\<rparr>"

definition ss_production :: "ss_ProductionPlan \<Rightarrow> jsval" where
  "ss_production p = ss_stored_production p"

definition ss_calculatedProduction :: "ss_ProductionPlan \<Rightarrow> error + jsval" where
  "ss_calculatedProduction p = reduce_amounts (Number (Fin 0)) (ss_adjustments p)"

text \<open>
  \<^verbatim>\<open>applyAdjustment\<close> pushes first and reads \<^verbatim>\<open>anAdjustment.amount\<close> afterwards, so a
  throw leaves the pushed element behind: the error comes with the plan as it then is.
\<close>

definition ss_applyAdjustment ::
  "ss_ProductionPlan \<Rightarrow> jsref \<Rightarrow> (error \<times> ss_ProductionPlan) + ss_ProductionPlan" where
  "ss_applyAdjustment p anAdjustment =
     (let p1 = p\<lparr>ss_adjustments := ss_adjustments p @ [anAdjustment]\<rparr>
      in case get_amount anAdjustment of
           Inl e \<Rightarrow> Inl (e, p1)
         | Inr v \<Rightarrow> Inr (p1\<lparr>ss_stored_production := js_plus (ss_stored_production p1) v\<rparr>))"

section \<open>Clients: sequences of calls\<close>

text \<open>An adjustment literal \<^verbatim>\<open>{ amount: q }\<close> with a finite amount.\<close>

definition adjustment_of :: "rat \<Rightarrow> jsref" where
  "adjustment_of q = Obj \<lparr>amount = Number (Fin q)\<rparr>"

text \<open>Applying adjustments one after the other; in straight-line code a throw ends the run.\<close>

fun ms_applyAll :: "ms_ProductionPlan \<Rightarrow> jsref list \<Rightarrow> ms_ProductionPlan" where
  "ms_applyAll p [] = p"
| "ms_applyAll p (a # as) = ms_applyAll (ms_applyAdjustment p a) as"

fun ss_applyAll ::
  "ss_ProductionPlan \<Rightarrow> jsref list \<Rightarrow> (error \<times> ss_ProductionPlan) + ss_ProductionPlan" where
  "ss_applyAll p [] = Inr p"
| "ss_applyAll p (a # as) =
     (case ss_applyAdjustment p a of
        Inl e \<Rightarrow> Inl e
      | Inr p' \<Rightarrow> ss_applyAll p' as)"

text \<open>
  Any interleaving of reads and updates, by a client that catches what is thrown: each call
  yields its outcome (a getter's value, \<^verbatim>\<open>undefined\<close> for the void method, or the error)
  and the plan after it.
\<close>

datatype ms_call = MsProduction | MsApplyAdjustment jsref

fun ms_step :: "ms_ProductionPlan \<Rightarrow> ms_call \<Rightarrow> (error + jsval) \<times> ms_ProductionPlan" where
  "ms_step p MsProduction = (ms_production p, p)"
| "ms_step p (MsApplyAdjustment a) = (Inr Undefined, ms_applyAdjustment p a)"

fun ms_run ::
  "ms_ProductionPlan \<Rightarrow> ms_call list \<Rightarrow> (error + jsval) list \<times> ms_ProductionPlan" where
  "ms_run p [] = ([], p)"
| "ms_run p (c # cs) =
     (let (r, p') = ms_step p c; (rs, p'') = ms_run p' cs in (r # rs, p''))"

datatype ss_call = SsProduction | SsCalculatedProduction | SsApplyAdjustment jsref

fun ss_step :: "ss_ProductionPlan \<Rightarrow> ss_call \<Rightarrow> (error + jsval) \<times> ss_ProductionPlan" where
  "ss_step p SsProduction = (Inr (ss_production p), p)"
| "ss_step p SsCalculatedProduction = (ss_calculatedProduction p, p)"
| "ss_step p (SsApplyAdjustment a) =
     (case ss_applyAdjustment p a of
        Inl (e, p') \<Rightarrow> (Inl e, p')
      | Inr p' \<Rightarrow> (Inr Undefined, p'))"

fun ss_run ::
  "ss_ProductionPlan \<Rightarrow> ss_call list \<Rightarrow> (error + jsval) list \<times> ss_ProductionPlan" where
  "ss_run p [] = ([], p)"
| "ss_run p (c # cs) =
     (let (r, p') = ss_step p c; (rs, p'') = ss_run p' cs in (r # rs, p''))"

section \<open>The specification's production figure\<close>

text \<open>
  The specification's derived value, in its own words: the initial production plus the sum
  of the amounts, as a sum of numbers in the mathematical sense.
\<close>

definition spec_production :: "rat \<Rightarrow> rat list \<Rightarrow> rat" where
  "spec_production initialProduction amounts = initialProduction + sum_list amounts"

text \<open>
  Every addition of the fold over \<open>amounts\<close>, started at \<open>s\<close>, is exact: no partial sum is
  rounded.
\<close>

fun exact_sums :: "rat \<Rightarrow> rat list \<Rightarrow> bool" where
  "exact_sums s [] = True"
| "exact_sums s (a # as) = (is_double (s + a) \<and> exact_sums (s + a) as)"

text \<open>Well-formed input: a number, and an adjustment object whose amount is a number.\<close>

fun is_number :: "jsval \<Rightarrow> bool" where
  "is_number Undefined = False"
| "is_number (Number NaN) = True"
| "is_number (Number PosInf) = True"
| "is_number (Number NegInf) = True"
| "is_number (Number (Fin q)) = is_double q"

fun is_adjustment :: "jsref \<Rightarrow> bool" where
  "is_adjustment Nullish = False"
| "is_adjustment (Obj a) = is_number (amount a)"

text \<open>A call that returns (a value, or \<^verbatim>\<open>undefined\<close> for the void method) and does not throw.\<close>

definition returns_normally :: "error + jsval \<Rightarrow> bool" where
  "returns_normally r = (case r of Inl _ \<Rightarrow> False | Inr _ \<Rightarrow> True)"

text \<open>A call on well-formed input: a read, or an update with an adjustment.\<close>

fun ms_wf_call :: "ms_call \<Rightarrow> bool" where
  "ms_wf_call MsProduction = True"
| "ms_wf_call (MsApplyAdjustment a) = is_adjustment a"

fun ss_wf_call :: "ss_call \<Rightarrow> bool" where
  "ss_wf_call SsProduction = True"
| "ss_wf_call SsCalculatedProduction = True"
| "ss_wf_call (SsApplyAdjustment a) = is_adjustment a"

section \<open>Rounding\<close>

text \<open>Evaluating the rounding on numerals.\<close>

lemma floor_rat_numeral: "\<lfloor>numeral a / (numeral b :: rat)\<rfloor> = numeral a div numeral b"
  by (metis floor_divide_of_int_eq of_int_numeral)

lemma floor_rat_neg_numeral:
  "\<lfloor>- (numeral a / (numeral b :: rat))\<rfloor> = - numeral a div numeral b"
  by (metis divide_minus_left floor_divide_of_int_eq of_int_neg_numeral of_int_numeral)

lemma ceiling_rat_numeral:
  "\<lceil>numeral a / (numeral b :: rat)\<rceil> = - (- numeral a div numeral b)"
  by (simp add: ceiling_def floor_rat_neg_numeral)

lemmas round_eval = round_double_def ilog2_def rne_def compute_bitlen Let_def
  floor_rat_numeral ceiling_rat_numeral

lemma round_2_53: "round_double 9007199254740992 = Fin 9007199254740992"
  by (simp add: round_eval)

lemma round_2_53_plus_1: "round_double 9007199254740993 = Fin 9007199254740992"
  by (simp add: round_eval)

lemma round_2_53_plus_2: "round_double 9007199254740994 = Fin 9007199254740994"
  by (simp add: round_eval)

lemma round_small: "round_double 1 = Fin 1" "round_double 2 = Fin 2"
  by (simp_all add: round_eval)

lemma is_double_small:
  "is_double 5" "is_double (- 3)" "is_double 2" "is_double (- 1)" "is_double 4" "is_double 1"
  by (simp_all add: is_double_def round_eval)

lemma round_tenth: "round_double (1 / 10) = Fin (3602879701896397 / 36028797018963968)"
  by (simp add: round_eval)

lemma round_2_53_plus_3: "round_double 9007199254740995 = Fin 9007199254740996"
  by (simp add: round_eval)

lemma is_double_fractions: "is_double (1 / 2)" "is_double (1 / 4)" "is_double (3 / 4)"
  by (simp_all add: is_double_def round_eval)

lemma not_is_double_tenth: "\<not> is_double (1 / 10)"
  by (simp add: is_double_def round_eval)

lemma round_overflow: "round_double (2 ^ 1024) = PosInf"
  by (simp add: round_eval)

lemma round_double_0: "round_double 0 = Fin 0"
  by (simp add: round_double_def)

lemma num_add_0_right: "is_number (Number n) \<Longrightarrow> num_add n (Fin 0) = n"
  by (cases n) (simp_all add: is_double_def)

lemma is_double_10: "is_double 10"
  by (simp add: is_double_def round_double_def ilog2_def rne_def compute_bitlen Let_def)

text \<open>
  A rational on the grid of its own binade, below the overflow threshold, is a double; in
  particular every integer of magnitude below \<open>2\<^sup>5\<^sup>3\<close> is one.
\<close>

lemma rne_of_int: "rne (of_int n) = n"
  by (simp add: rne_def)

lemma round_double_exact:
  assumes "q \<noteq> 0"
    and "\<bar>q\<bar> / 2 powi (max (ilog2 \<bar>q\<bar> - 52) (- 1074)) = of_int m"
    and "\<bar>q\<bar> < 2 ^ 1024"
  shows "round_double q = Fin q"
proof -
  let ?e = "max (ilog2 \<bar>q\<bar> - 52) (- 1074)"
  have "rne (\<bar>q\<bar> / 2 powi ?e) = m"
    by (simp only: assms(2) rne_of_int)
  moreover have "of_int m * 2 powi ?e = \<bar>q\<bar>"
    by (simp flip: assms(2))
  ultimately have "of_int (rne (\<bar>q\<bar> / 2 powi ?e)) * 2 powi ?e = \<bar>q\<bar>"
    by simp
  moreover have "sgn q * \<bar>q\<bar> = q"
    by (simp add: sgn_mult_abs)
  ultimately show ?thesis
    using assms(1,3) by (simp add: round_double_def Let_def)
qed

lemma ilog2_of_int: "n \<noteq> 0 \<Longrightarrow> ilog2 \<bar>of_int n\<bar> = bitlen \<bar>n\<bar> - 1"
proof -
  assume "n \<noteq> 0"
  then have "1 \<le> \<bar>n\<bar>" by simp
  then have "(1::rat) \<le> of_int \<bar>n\<bar>" by (simp only: of_int_1_le_iff)
  moreover have "\<lfloor>of_int \<bar>n\<bar> :: rat\<rfloor> = \<bar>n\<bar>" by (rule floor_of_int)
  ultimately have "ilog2 (of_int \<bar>n\<bar>) = bitlen \<bar>n\<bar> - 1"
    by (simp only: ilog2_def if_True)
  then show ?thesis by simp
qed

lemma is_double_of_int:
  assumes "\<bar>n\<bar> < 2 ^ 53"
  shows "is_double (of_int n)"
proof (cases "n = 0")
  case True
  then show ?thesis by (simp add: is_double_def round_double_def)
next
  case False
  let ?q = "of_int n :: rat"
  let ?e = "max (ilog2 \<bar>?q\<bar> - 52) (- 1074)"
  have "bitlen \<bar>n\<bar> \<le> 53"
    using assms by (simp add: bitlen_le_iff_power)
  then have e: "?e \<le> 0"
    by (simp add: ilog2_of_int [OF False])
  define k where "k = nat (- ?e)"
  have ek: "?e = - int k"
    using e by (simp add: k_def)
  have "\<bar>?q\<bar> / 2 powi ?e = of_int (\<bar>n\<bar> * 2 ^ k)"
    unfolding ek by (simp add: power_int_minus field_simps)
  moreover have "\<bar>?q\<bar> < 2 ^ 1024"
  proof -
    have "\<bar>n\<bar> < 2 ^ 1024"
      using assms by (rule less_trans) simp
    then have "(of_int \<bar>n\<bar> :: rat) < of_int (2 ^ 1024)"
      by (simp only: of_int_less_iff)
    then show ?thesis by simp
  qed
  moreover have "?q \<noteq> 0" using False by simp
  ultimately show ?thesis
    unfolding is_double_def by (rule round_double_exact [rotated])
qed

text \<open>
  \<open>ilog2\<close> is the binary exponent, and what \<open>round_double\<close> returns as finite is a double
  again, so that a sum is a number whatever the operands are.
\<close>

lemma powi_nonneg: "0 \<le> n \<Longrightarrow> (2::rat) powi n = 2 ^ nat n"
  by (simp add: power_int_def)

lemma powi_neg: "0 \<le> n \<Longrightarrow> (2::rat) powi (- n) = 1 / 2 ^ nat n"
proof -
  assume "0 \<le> n"
  then have "(2::rat) powi (- n) = 2 powi (- int (nat n))" by simp
  also have "\<dots> = inverse (2 ^ nat n)"
    by (simp only: power_int_minus power_int_of_nat)
  finally show ?thesis by (simp add: inverse_eq_divide)
qed

lemma ilog2_bounds:
  assumes "0 < q"
  shows "2 powi (ilog2 q) \<le> q \<and> q < 2 powi (ilog2 q + 1)"
proof (cases "1 \<le> q")
  case True
  define n where "n = \<lfloor>q\<rfloor>"
  have n1: "1 \<le> n" using True by (simp add: n_def)
  then have npos: "0 < n" by simp
  have bl: "1 \<le> bitlen n"
    using npos bitlen_eq_zero_iff [of n] bitlen_nonneg [of n] by linarith
  from bitlen_bounds [OF npos]
  have lo: "2 ^ nat (bitlen n - 1) \<le> n" and hi: "n < 2 ^ nat (bitlen n)" by simp_all
  have il: "ilog2 q = bitlen n - 1"
    using True by (simp add: ilog2_def n_def)
  have "(2::rat) powi (bitlen n - 1) = of_int (2 ^ nat (bitlen n - 1))"
    using bl by (simp add: powi_nonneg)
  also have "\<dots> \<le> of_int n"
    using lo by (simp only: of_int_le_iff)
  also have "\<dots> \<le> q"
    by (simp add: n_def)
  finally have a: "2 powi (ilog2 q) \<le> q"
    by (simp add: il)
  have "q < of_int (n + 1)"
    using floor_correct [of q] by (simp add: n_def)
  also have "\<dots> \<le> of_int (2 ^ nat (bitlen n))"
  proof -
    from hi have "n + 1 \<le> 2 ^ nat (bitlen n)" by simp
    then show ?thesis by (simp only: of_int_le_iff)
  qed
  also have "\<dots> = 2 powi (bitlen n)"
    using bl by (simp add: powi_nonneg)
  finally have "q < 2 powi (ilog2 q + 1)"
    by (simp add: il)
  with a show ?thesis ..
next
  case False
  define k where "k = \<lceil>1 / q\<rceil> - 1"
  have y1: "1 < 1 / q" using False assms by simp
  then have "1 < \<lceil>1 / q\<rceil>" by (simp add: less_ceiling_iff)
  then have kpos: "0 < k" by (simp add: k_def)
  have bl: "1 \<le> bitlen k"
    using kpos bitlen_eq_zero_iff [of k] bitlen_nonneg [of k] by linarith
  from bitlen_bounds [OF kpos]
  have lo: "2 ^ nat (bitlen k - 1) \<le> k" and hi: "k < 2 ^ nat (bitlen k)" by simp_all
  have il: "ilog2 q = - bitlen k"
    using False by (simp add: ilog2_def k_def)
  have "1 / q \<le> of_int (k + 1)"
    by (simp add: k_def)
  also have "\<dots> \<le> of_int (2 ^ nat (bitlen k))"
  proof -
    from hi have "k + 1 \<le> 2 ^ nat (bitlen k)" by simp
    then show ?thesis by (simp only: of_int_le_iff)
  qed
  also have "\<dots> = 2 ^ nat (bitlen k)" by simp
  finally have "1 / q \<le> 2 ^ nat (bitlen k)" .
  then have "1 \<le> 2 ^ nat (bitlen k) * q"
    using assms by (simp add: pos_divide_le_eq)
  then have "1 / 2 ^ nat (bitlen k) \<le> q"
    by (simp add: pos_divide_le_eq mult.commute)
  moreover have "(2::rat) powi (- bitlen k) = 1 / 2 ^ nat (bitlen k)"
    using bl by (simp add: powi_neg)
  ultimately have a: "2 powi (ilog2 q) \<le> q"
    by (simp add: il)
  have "(of_int (2 ^ nat (bitlen k - 1)) :: rat) \<le> of_int k"
    using lo by (simp only: of_int_le_iff)
  also have "of_int k < 1 / q"
    unfolding k_def by (simp add: less_divide_eq_1 assms) linarith
  finally have "2 ^ nat (bitlen k - 1) < 1 / q" by simp
  then have "2 ^ nat (bitlen k - 1) * q < 1"
    using assms by (simp add: pos_less_divide_eq)
  then have "q < 1 / 2 ^ nat (bitlen k - 1)"
    by (simp add: pos_less_divide_eq mult.commute)
  moreover have "(2::rat) powi (- bitlen k + 1) = 1 / 2 ^ nat (bitlen k - 1)"
  proof -
    have "(2::rat) powi (- (bitlen k - 1)) = 1 / 2 ^ nat (bitlen k - 1)"
      using bl by (intro powi_neg) simp
    then show ?thesis by simp
  qed
  ultimately have "q < 2 powi (ilog2 q + 1)"
    by (simp add: il)
  with a show ?thesis ..
qed


lemma ilog2_unique:
  assumes "2 powi k \<le> r" and "r < 2 powi (k + 1)"
  shows "ilog2 r = k"
proof -
  have "(0::rat) < 2 powi k" by simp
  from this assms(1) have rpos: "0 < r" by (rule less_le_trans)
  from ilog2_bounds [OF rpos]
  have lo: "2 powi (ilog2 r) \<le> r" and hi: "r < 2 powi (ilog2 r + 1)" by simp_all
  have "\<not> ilog2 r < k"
  proof
    assume "ilog2 r < k"
    then have "ilog2 r + 1 \<le> k" by simp
    then have "(2::rat) powi (ilog2 r + 1) \<le> 2 powi k"
      by (rule power_int_increasing) simp
    with hi assms(1) show False by simp
  qed
  moreover have "\<not> k < ilog2 r"
  proof
    assume "k < ilog2 r"
    then have "k + 1 \<le> ilog2 r" by simp
    then have "(2::rat) powi (k + 1) \<le> 2 powi (ilog2 r)"
      by (rule power_int_increasing) simp
    with lo assms(2) show False by simp
  qed
  ultimately show ?thesis by simp
qed

lemma rne_cases: "rne x = \<lfloor>x\<rfloor> \<or> rne x = \<lfloor>x\<rfloor> + 1 \<and> of_int \<lfloor>x\<rfloor> < x"
  by (auto simp add: rne_def Let_def)

lemma rne_upper: "x \<le> of_int n \<Longrightarrow> rne x \<le> n"
proof -
  assume le: "x \<le> of_int n"
  then have f: "\<lfloor>x\<rfloor> \<le> n" by (simp add: floor_le_iff) 
  from rne_cases [of x] show ?thesis
  proof
    assume "rne x = \<lfloor>x\<rfloor>"
    with f show ?thesis by simp
  next
    assume c: "rne x = \<lfloor>x\<rfloor> + 1 \<and> of_int \<lfloor>x\<rfloor> < x"
    then have "of_int \<lfloor>x\<rfloor> < (of_int n :: rat)" using le by simp
    then have "\<lfloor>x\<rfloor> < n" by (simp only: of_int_less_iff)
    with c show ?thesis by simp
  qed
qed

lemma rne_lower: "of_int n \<le> x \<Longrightarrow> n \<le> rne x"
proof -
  assume "of_int n \<le> x"
  then have "n \<le> \<lfloor>x\<rfloor>" by (simp add: le_floor_iff)
  with rne_cases [of x] show ?thesis by auto
qed

lemma round_double_is_double:
  assumes "round_double q = Fin r"
  shows "is_double r"
proof (cases "q = 0")
  case True
  with assms have "r = 0" by (simp add: round_double_def)
  then show ?thesis by (simp add: is_double_def round_double_def)
next
  case False
  define a where "a = \<bar>q\<bar>"
  define L where "L = ilog2 a"
  define e where "e = max (L - 52) (- 1074)"
  define P where "P = (2::rat) powi e"
  define m where "m = rne (a / P)"
  have apos: "0 < a" using False by (simp add: a_def)
  have Ppos: "0 < P" by (simp add: P_def)
  from ilog2_bounds [OF apos]
  have alo: "2 powi L \<le> a" and ahi: "a < 2 powi (L + 1)" by (simp_all add: L_def)
  have unfold: "round_double q =
      (if 2 ^ 1024 \<le> of_int m * P then (if 0 < q then PosInf else NegInf)
       else Fin (sgn q * (of_int m * P)))"
    using False by (simp add: round_double_def Let_def a_def L_def e_def P_def m_def)
  with assms have small: "of_int m * P < 2 ^ 1024" and r: "r = sgn q * (of_int m * P)"
    by (auto split: if_splits)
  have absr: "\<bar>r\<bar> = of_int \<bar>m\<bar> * P"
    using False Ppos by (simp add: r abs_mult abs_sgn_eq)
  have "0 \<le> a / P" using apos Ppos by simp
  then have "of_int 0 \<le> a / P" by simp
  then have mnn: "0 \<le> m" unfolding m_def by (rule rne_lower)
  have P53: "2 powi (L + 1) \<le> P * 2 ^ 53"
  proof -
    have "L + 1 \<le> e + 53" by (simp add: e_def)
    then have "(2::rat) powi (L + 1) \<le> 2 powi (e + 53)"
      by (rule power_int_increasing) simp
    also have "\<dots> = P * 2 ^ 53"
      by (simp add: power_int_add P_def)
    finally show ?thesis .
  qed
  have "a / P \<le> 2 ^ 53"
    using ahi P53 Ppos by (simp add: pos_divide_le_eq mult.commute)
  then have "a / P \<le> of_int (2 ^ 53)" by simp
  then have m53: "m \<le> 2 ^ 53" unfolding m_def by (rule rne_upper)
  show ?thesis
  proof (cases "m = 0")
    case True
    then have "r = 0" by (simp add: r)
    then show ?thesis by (simp add: is_double_def round_double_def)
  next
    case mne: False
    with mnn have mpos: "0 < m" by simp
    then have absm: "\<bar>m\<bar> = m" by simp
    have rne0: "r \<noteq> 0" using mne False Ppos by (simp add: r sgn_eq_0_iff)
    have rlt: "\<bar>r\<bar> < 2 ^ 1024" using small by (simp add: absr absm)
    have grid: "\<exists>k. \<bar>r\<bar> / 2 powi (max (ilog2 \<bar>r\<bar> - 52) (- 1074)) = of_int k"
    proof (cases "m = 2 ^ 53")
      case True
      have "\<bar>r\<bar> = 2 powi (e + 53)"
        by (simp add: absr absm True power_int_add P_def mult.commute)
      then have rr: "\<bar>r\<bar> = 2 powi (e + 53)" .
      have "ilog2 \<bar>r\<bar> = e + 53"
      proof (rule ilog2_unique)
        show "2 powi (e + 53) \<le> \<bar>r\<bar>" by (simp add: rr)
        have "(2::rat) powi (e + 53) < 2 powi (e + 53 + 1)"
          by (rule power_int_strict_increasing) simp_all
        then show "\<bar>r\<bar> < 2 powi (e + 53 + 1)" by (simp add: rr)
      qed
      moreover have "- 1074 \<le> e" by (simp add: e_def)
      ultimately have e': "max (ilog2 \<bar>r\<bar> - 52) (- 1074) = e + 1" by simp
      have "\<bar>r\<bar> / 2 powi (e + 1) = of_int (2 ^ 52)"
        by (simp add: rr power_int_add)
      then show ?thesis unfolding e' by blast
    next
      case False
      with m53 have mlt: "m < 2 ^ 53" by simp
      have e': "max (ilog2 \<bar>r\<bar> - 52) (- 1074) = e"
      proof (cases "- 1074 \<le> L - 52")
        case True
        then have eL: "e = L - 52" by (simp add: e_def)
        have "P * 2 ^ 52 = 2 powi L"
          by (simp add: P_def eL power_int_diff)
        with alo have "P * 2 ^ 52 \<le> a" by simp
        then have "of_int (2 ^ 52) \<le> a / P"
          using Ppos by (simp add: pos_le_divide_eq mult.commute)
        then have mge: "2 ^ 52 \<le> m" unfolding m_def by (rule rne_lower)
        have "ilog2 \<bar>r\<bar> = e + 52"
        proof (rule ilog2_unique)
          have "(2::rat) powi (e + 52) = of_int (2 ^ 52) * P"
            by (simp add: power_int_add P_def mult.commute)
          also have "\<dots> \<le> of_int m * P"
            using mge Ppos by (simp only: mult_le_cancel_right_pos of_int_le_iff)
          finally show "2 powi (e + 52) \<le> \<bar>r\<bar>" by (simp add: absr absm)
          have "of_int m * P < of_int (2 ^ 53) * P"
            using mlt Ppos by (simp only: mult_less_cancel_right_pos of_int_less_iff)
          also have "\<dots> = 2 powi (e + 52 + 1)"
            by (simp add: power_int_add P_def mult.commute)
          finally show "\<bar>r\<bar> < 2 powi (e + 52 + 1)" by (simp add: absr absm)
        qed
        then show ?thesis using True by (simp add: eL)
      next
        case sub: False
        then have e1074: "e = - 1074" by (simp add: e_def)
        have "L + 1 \<le> - 1022" using sub by simp
        then have "(2::rat) powi (L + 1) \<le> 2 powi (- 1022)"
          by (rule power_int_increasing) simp
        with ahi have "a < 2 powi (- 1022)" by simp
        also have "(2::rat) powi (- 1022) = P * 2 ^ 52"
          by (simp add: P_def e1074 power_int_minus field_simps)
        finally have "a / P \<le> of_int (2 ^ 52)"
          using Ppos by (simp add: pos_divide_le_eq mult.commute)
        then have mle: "m \<le> 2 ^ 52" unfolding m_def by (rule rne_upper)
        have rpos: "0 < \<bar>r\<bar>" using rne0 by simp
        have "of_int m * P \<le> of_int (2 ^ 52) * P"
          using mle Ppos by (simp only: mult_le_cancel_right_pos of_int_le_iff)
        also have "\<dots> = 2 powi (- 1022)"
          by (simp add: P_def e1074 power_int_minus field_simps)
        finally have rle: "\<bar>r\<bar> \<le> 2 powi (- 1022)" by (simp add: absr absm)
        have "\<not> - 1022 < ilog2 \<bar>r\<bar>"
        proof
          assume "- 1022 < ilog2 \<bar>r\<bar>"
          then have "(2::rat) powi (- 1022) < 2 powi (ilog2 \<bar>r\<bar>)"
            by (rule power_int_strict_increasing) simp
          also have "\<dots> \<le> \<bar>r\<bar>" using ilog2_bounds [OF rpos] by simp
          finally show False using rle by simp
        qed
        then show ?thesis by (simp add: e1074)
      qed
      have "\<bar>r\<bar> / 2 powi e = of_int m"
        using Ppos by (simp add: absr absm P_def)
      then show ?thesis unfolding e' by blast
    qed
    then obtain k where "\<bar>r\<bar> / 2 powi (max (ilog2 \<bar>r\<bar> - 52) (- 1074)) = of_int k" ..
    with rne0 have "round_double r = Fin r" using rlt by (rule round_double_exact)
    then show ?thesis by (simp add: is_double_def)
  qed
qed

lemma js_plus_is_number: "is_number (js_plus a b)"
proof (cases "num_add (ToNumber a) (ToNumber b)")
  case (Fin r)
  then obtain x y where "round_double (x + y) = Fin r"
    by (cases "ToNumber a"; cases "ToNumber b") simp_all
  then have "is_double r" by (rule round_double_is_double)
  with Fin show ?thesis by (simp add: js_plus_def)
qed (simp_all add: js_plus_def)

text \<open>Sums of integers that stay below \<open>2\<^sup>5\<^sup>3\<close> in magnitude are exact.\<close>

lemma exact_sums_of_int:
  "\<bar>s\<bar> + sum_list (map abs as) < 2 ^ 53 \<Longrightarrow> exact_sums (of_int s) (map of_int as)"
proof (induction as arbitrary: s)
  case Nil
  show ?case by simp
next
  case (Cons a as)
  have sl: "0 \<le> sum_list (map abs as)"
    by (rule sum_list_nonneg) auto
  have "\<bar>s + a\<bar> < 2 ^ 53"
    using Cons.prems sl by simp
  then have "is_double (of_int (s + a))"
    by (rule is_double_of_int)
  moreover have "\<bar>s + a\<bar> + sum_list (map abs as) < 2 ^ 53"
    using Cons.prems by simp
  then have "exact_sums (of_int (s + a)) (map of_int as)"
    by (rule Cons.IH)
  ultimately show ?case by simp
qed

section \<open>The fold and the plans\<close>

lemma js_plus_Fin: "js_plus (Number (Fin a)) (Number (Fin b)) = Number (round_double (a + b))"
  by (simp add: js_plus_def)

lemma reduce_amounts_exact:
  "exact_sums s amounts \<Longrightarrow>
   reduce_amounts (Number (Fin s)) (map adjustment_of amounts) =
     Inr (Number (Fin (s + sum_list amounts)))"
proof (induction amounts arbitrary: s)
  case Nil
  show ?case by simp
next
  case (Cons a as)
  then have "round_double (s + a) = Fin (s + a)" and "exact_sums (s + a) as"
    by (simp_all add: is_double_def)
  with Cons.IH [of "s + a"] show ?case
    by (simp add: adjustment_of_def js_plus_Fin add.assoc)
qed

lemma ms_applyAll_fields:
  "ms_adjustments (ms_applyAll p as) = ms_adjustments p @ as \<and>
   ms_initialProduction (ms_applyAll p as) = ms_initialProduction p"
  by (induction as arbitrary: p) (simp_all add: ms_applyAdjustment_def)

lemma reduce_amounts_snoc:
  "reduce_amounts acc (as @ [a]) =
     (case reduce_amounts acc as of
        Inl e \<Rightarrow> Inl e
      | Inr v \<Rightarrow> (case get_amount a of Inl e \<Rightarrow> Inl e | Inr w \<Rightarrow> Inr (js_plus v w)))"
  by (induction as arbitrary: acc) (simp_all split: sum.splits)

lemma ss_applyAll_exact:
  "ss_stored_production p = Number (Fin s) \<Longrightarrow> exact_sums s amounts \<Longrightarrow>
   \<exists>p'. ss_applyAll p (map adjustment_of amounts) = Inr p' \<and>
        ss_stored_production p' = Number (Fin (s + sum_list amounts))"
proof (induction amounts arbitrary: p s)
  case Nil
  then show ?case by simp
next
  case (Cons a as)
  let ?p1 = "p\<lparr>ss_adjustments := ss_adjustments p @ [adjustment_of a],
               ss_stored_production := Number (Fin (s + a))\<rparr>"
  from Cons.prems have r: "round_double (s + a) = Fin (s + a)" and ex: "exact_sums (s + a) as"
    by (simp_all add: is_double_def)
  have step: "ss_applyAdjustment p (adjustment_of a) = Inr ?p1"
    using Cons.prems(1) r
    by (simp add: ss_applyAdjustment_def adjustment_of_def js_plus_Fin)
  have "ss_stored_production ?p1 = Number (Fin (s + a))" by simp
  from Cons.IH [OF this ex] step show ?case
    by (simp add: add.assoc)
qed

lemma ms_production_exact:
  assumes "exact_sums 0 amounts" and "is_double (b + sum_list amounts)"
  shows "ms_production (ms_applyAll (ms_new [Number (Fin b)]) (map adjustment_of amounts)) =
           Inr (Number (Fin (b + sum_list amounts)))"
proof -
  have "reduce_amounts (Number (Fin 0)) (map adjustment_of amounts) =
          Inr (Number (Fin (sum_list amounts)))"
    using reduce_amounts_exact [OF assms(1)] by simp
  then show ?thesis
    using assms(2)
    by (simp add: ms_production_def ms_applyAll_fields ms_new_def js_plus_Fin is_double_def)
qed

lemma ss_production_exact:
  assumes "exact_sums 0 amounts"
  shows "\<exists>p. ss_applyAll (ss_new args) (map adjustment_of amounts) = Inr p \<and>
             ss_production p = Number (Fin (sum_list amounts))"
proof -
  have "ss_stored_production (ss_new args) = Number (Fin 0)"
    by (simp add: ss_new_def)
  from ss_applyAll_exact [OF this assms] show ?thesis
    by (simp add: ss_production_def)
qed

lemma ms_production_safe_integers:
  assumes "\<bar>b\<bar> + sum_list (map abs as) < 2 ^ 53"
  shows "ms_production (ms_applyAll (ms_new [Number (Fin (of_int b))])
           (map adjustment_of (map of_int as))) =
         Inr (Number (Fin (of_int (b + sum_list as))))"
proof -
  have "\<bar>0\<bar> + sum_list (map abs as) < 2 ^ 53"
    using assms by simp
  then have "exact_sums (of_int 0) (map of_int as)"
    by (rule exact_sums_of_int)
  then have ex: "exact_sums 0 (map of_int as)"
    by simp
  have sl: "sum_list (map of_int as) = (of_int (sum_list as) :: rat)"
    by (induction as) simp_all
  have "\<bar>sum_list as\<bar> \<le> sum_list (map abs as)"
    by (rule sum_list_abs)
  then have "\<bar>b + sum_list as\<bar> < 2 ^ 53"
    using assms by simp
  then have "is_double (of_int (b + sum_list as))"
    by (rule is_double_of_int)
  then have "is_double (of_int b + sum_list (map of_int as))"
    by (simp add: sl)
  with ex have "ms_production (ms_applyAll (ms_new [Number (Fin (of_int b))])
           (map adjustment_of (map of_int as))) =
         Inr (Number (Fin (of_int b + sum_list (map of_int as))))"
    by (rule ms_production_exact)
  then show ?thesis by (simp only: sl of_int_add)
qed

lemma ss_production_safe_integers:
  assumes "sum_list (map abs as) < 2 ^ 53"
  shows "\<exists>p. ss_applyAll (ss_new args) (map adjustment_of (map of_int as)) = Inr p \<and>
             ss_production p = Number (Fin (of_int (sum_list as)))"
proof -
  have "\<bar>0\<bar> + sum_list (map abs as) < 2 ^ 53"
    using assms by simp
  then have "exact_sums (of_int 0) (map of_int as)"
    by (rule exact_sums_of_int)
  then have ex: "exact_sums 0 (map of_int as)"
    by simp
  have sl: "sum_list (map of_int as) = (of_int (sum_list as) :: rat)"
    by (induction as) simp_all
  from ss_production_exact [OF ex, of args] show ?thesis
    by (simp only: sl)
qed

lemma sum_list_mset_cong: "mset xs = mset ys \<Longrightarrow> sum_list xs = (sum_list ys :: rat)"
  by (metis sum_mset_sum_list)

lemma ss_applyAdjustment_invariant:
  assumes "ss_calculatedProduction p = Inr (ss_stored_production p)"
    and "ss_applyAdjustment p a = Inr p'"
  shows "ss_calculatedProduction p' = Inr (ss_stored_production p')"
  using assms
  by (auto simp add: ss_calculatedProduction_def ss_applyAdjustment_def reduce_amounts_snoc
      Let_def split: sum.splits)

lemma ss_applyAll_invariant:
  "ss_calculatedProduction p = Inr (ss_stored_production p) \<Longrightarrow>
   ss_applyAll p as = Inr p' \<Longrightarrow>
   ss_calculatedProduction p' = Inr (ss_stored_production p')"
proof (induction as arbitrary: p)
  case Nil
  then show ?case by simp
next
  case (Cons a as)
  from Cons.prems(2) obtain p1 where
    p1: "ss_applyAdjustment p a = Inr p1" and rest: "ss_applyAll p1 as = Inr p'"
    by (auto split: sum.splits)
  from Cons.prems(1) p1 have "ss_calculatedProduction p1 = Inr (ss_stored_production p1)"
    by (rule ss_applyAdjustment_invariant)
  then show ?case using rest by (rule Cons.IH)
qed

lemma ms_run_initialProduction:
  "ms_initialProduction (snd (ms_run p calls)) = ms_initialProduction p"
proof (induction calls arbitrary: p)
  case Nil
  show ?case by simp
next
  case (Cons c cs)
  have "ms_initialProduction (snd (ms_step p c)) = ms_initialProduction p"
    by (cases c) (simp_all add: ms_applyAdjustment_def)
  with Cons.IH [of "snd (ms_step p c)"] show ?case
    by (simp add: split_beta Let_def)
qed

lemma reduce_amounts_objects:
  "Nullish \<notin> set as \<Longrightarrow> returns_normally (reduce_amounts acc as)"
proof (induction as arbitrary: acc)
  case Nil
  show ?case by (simp add: returns_normally_def)
next
  case (Cons a as)
  then obtain adj where "a = Obj adj" by (cases a) auto
  with Cons show ?case by simp
qed

lemma is_adjustment_not_Nullish: "is_adjustment a \<Longrightarrow> a \<noteq> Nullish"
  by (cases a) simp_all

lemma ms_run_returns:
  "Nullish \<notin> set (ms_adjustments p) \<Longrightarrow> list_all ms_wf_call calls \<Longrightarrow>
   list_all returns_normally (fst (ms_run p calls))"
proof (induction calls arbitrary: p)
  case Nil
  show ?case by simp
next
  case (Cons c cs)
  have r: "returns_normally (fst (ms_step p c))"
  proof (cases c)
    case MsProduction
    from reduce_amounts_objects [OF Cons.prems(1), of "Number (Fin 0)"] show ?thesis
      by (simp add: MsProduction ms_production_def returns_normally_def split: sum.splits)
  next
    case (MsApplyAdjustment a)
    then show ?thesis by (simp add: returns_normally_def)
  qed
  have "Nullish \<notin> set (ms_adjustments (snd (ms_step p c)))"
    using Cons.prems by (cases c) (auto simp add: ms_applyAdjustment_def is_adjustment_not_Nullish)
  moreover have "list_all ms_wf_call cs" using Cons.prems(2) by simp
  ultimately have "list_all returns_normally (fst (ms_run (snd (ms_step p c)) cs))"
    by (rule Cons.IH)
  with r show ?case by (simp add: split_beta Let_def)
qed

lemma ss_step_wf:
  assumes "Nullish \<notin> set (ss_adjustments p)" and "ss_wf_call c"
  shows "returns_normally (fst (ss_step p c)) \<and> Nullish \<notin> set (ss_adjustments (snd (ss_step p c)))"
proof (cases c)
  case SsProduction
  with assms show ?thesis by (simp add: returns_normally_def)
next
  case SsCalculatedProduction
  with assms reduce_amounts_objects [OF assms(1), of "Number (Fin 0)"] show ?thesis
    by (simp add: ss_calculatedProduction_def)
next
  case (SsApplyAdjustment a)
  with assms obtain adj where "a = Obj adj" by (cases a) auto
  with assms SsApplyAdjustment show ?thesis
    by (simp add: ss_applyAdjustment_def returns_normally_def)
qed

lemma ss_run_returns:
  "Nullish \<notin> set (ss_adjustments p) \<Longrightarrow> list_all ss_wf_call calls \<Longrightarrow>
   list_all returns_normally (fst (ss_run p calls))"
proof (induction calls arbitrary: p)
  case Nil
  show ?case by simp
next
  case (Cons c cs)
  from Cons.prems have c: "ss_wf_call c" and cs: "list_all ss_wf_call cs" by simp_all
  from ss_step_wf [OF Cons.prems(1) c]
  have r: "returns_normally (fst (ss_step p c))"
    and inv: "Nullish \<notin> set (ss_adjustments (snd (ss_step p c)))" by simp_all
  from inv cs have "list_all returns_normally (fst (ss_run (snd (ss_step p c)) cs))"
    by (rule Cons.IH)
  with r show ?case by (simp add: split_beta Let_def)
qed

section \<open>Construction\<close>

text \<open>
  C2, as amended. With no argument the single-source plan reads 0. The multiple-sources
  constructor has no default: its baseline is then \<^verbatim>\<open>undefined\<close> and the read of
  \<^verbatim>\<open>production\<close> returns \<open>NaN\<close>; it returns 0 when 0 is passed.
\<close>

theorem C2_omitted_baseline:
  "ss_production (ss_new []) = Number (Fin 0) \<and>
   ms_initialProduction (ms_new []) = Undefined \<and>
   ms_production (ms_new []) = Inr (Number NaN) \<and>
   ms_production (ms_new [Number (Fin 0)]) = Inr (Number (Fin 0))"
  by (simp add: ss_production_def ss_new_def ms_production_def ms_new_def js_plus_def
      round_double_0)

text \<open>
  C2 as stated fails for the multiple-sources variant: \<^verbatim>\<open>new ProductionPlan().production\<close>
  is \<open>NaN\<close>, not 0.
\<close>

theorem C2_counterexample:
  "ms_production (ms_new []) = Inr (Number NaN) \<and>
   ms_production (ms_new []) \<noteq> Inr (Number (Fin 0))"
  by (simp add: ms_production_def ms_new_def js_plus_def)

text \<open>
  C10. The single-source constructor takes no baseline: whatever arguments it is called
  with, the fresh plan reads 0.
\<close>

theorem C10_single_source_constructor_ignores_argument:
  "ss_production (ss_new args) = Number (Fin 0)"
  by (simp add: ss_production_def ss_new_def)

text \<open>
  C4, as amended. A multiple-sources plan without adjustments whose initial production is
  a number reads exactly that number, and the read does not throw.
\<close>

theorem C4_empty_plan_reads_initial_production:
  assumes "ms_adjustments p = []" and "is_number (ms_initialProduction p)"
  shows "ms_production p = Inr (ms_initialProduction p)"
proof -
  obtain n where n: "ms_initialProduction p = Number n"
    using assms(2) by (cases "ms_initialProduction p") simp_all
  with assms(2) have "num_add n (Fin 0) = n"
    by (simp add: num_add_0_right)
  with n assms(1) show ?thesis
    by (simp add: ms_production_def js_plus_def)
qed

theorem C4_witness:
  "ms_adjustments (ms_new [Number (Fin 10)]) = [] \<and>
   is_number (ms_initialProduction (ms_new [Number (Fin 10)])) \<and>
   ms_production (ms_new [Number (Fin 10)]) = Inr (Number (Fin 10))"
proof -
  have a: "ms_adjustments (ms_new [Number (Fin 10)]) = []"
    by (simp add: ms_new_def)
  have b: "is_number (ms_initialProduction (ms_new [Number (Fin 10)]))"
    by (simp add: ms_new_def is_double_10)
  from C4_empty_plan_reads_initial_production [OF a b] a b show ?thesis
    by (simp add: ms_new_def)
qed

text \<open>
  C4 as stated fails on the plan built without an argument: its adjustments are empty, its
  initial production is \<^verbatim>\<open>undefined\<close>, and the read returns \<open>NaN\<close>, which is not the
  stored value.
\<close>

theorem C4_counterexample:
  "ms_adjustments (ms_new []) = [] \<and>
   ms_initialProduction (ms_new []) = Undefined \<and>
   ms_production (ms_new []) = Inr (Number NaN) \<and>
   ms_production (ms_new []) \<noteq> Inr (ms_initialProduction (ms_new []))"
  by (simp add: ms_production_def ms_new_def js_plus_def)

section \<open>Frame properties\<close>

text \<open>
  C3, as amended. In the multiple-sources variant \<^verbatim>\<open>applyAdjustment\<close> appends its
  argument to the adjustments (one element more, the earlier ones in place) and leaves the
  initial production alone. In the single-source variant, applied to an object, it appends
  the object and also adds the object's amount to the stored production.
\<close>

theorem C3_applyAdjustment_appends:
  "ms_adjustments (ms_applyAdjustment p a) = ms_adjustments p @ [a] \<and>
   length (ms_adjustments (ms_applyAdjustment p a)) = Suc (length (ms_adjustments p)) \<and>
   take (length (ms_adjustments p)) (ms_adjustments (ms_applyAdjustment p a)) = ms_adjustments p \<and>
   ms_initialProduction (ms_applyAdjustment p a) = ms_initialProduction p \<and>
   ss_applyAdjustment q (Obj adj) =
     Inr \<lparr>ss_adjustments = ss_adjustments q @ [Obj adj],
          ss_stored_production = js_plus (ss_stored_production q) (amount adj)\<rparr>"
  by (simp add: ms_applyAdjustment_def ss_applyAdjustment_def)

text \<open>
  C3 as stated fails for the single-source variant: applying \<^verbatim>\<open>{ amount: 10 }\<close> to a
  fresh plan changes the stored production from 0 to 10.
\<close>

theorem C3_counterexample:
  "ss_applyAdjustment (ss_new []) (adjustment_of 10) =
     Inr \<lparr>ss_adjustments = [adjustment_of 10], ss_stored_production = Number (Fin 10)\<rparr> \<and>
   ss_stored_production (ss_new []) \<noteq> Number (Fin 10)"
  by (simp add: ss_applyAdjustment_def ss_new_def adjustment_of_def js_plus_def
      is_double_10 [unfolded is_double_def])

text \<open>
  C5. Whatever calls a client makes on a multiple-sources plan, reads and updates in any
  order, the initial production stays what the constructor stored.
\<close>

theorem C5_initial_production_never_mutated:
  "ms_initialProduction (snd (ms_run (ms_new args) calls)) = ms_initialProduction (ms_new args)"
  by (rule ms_run_initialProduction)

text \<open>
  C7. Any number of consecutive reads of \<^verbatim>\<open>production\<close> return the same value each time
  and leave the plan as it was, in both variants.
\<close>

theorem C7_reads_idempotent_and_pure:
  "ms_run p (replicate n MsProduction) = (replicate n (ms_production p), p) \<and>
   ss_run q (replicate n SsProduction) = (replicate n (Inr (ss_production q)), q)"
  by (induction n) simp_all

section \<open>The production figure\<close>

text \<open>
  C1, as amended. For a finite baseline and finite amounts, applied in order, such that no
  addition of the code rounds (every partial sum of the amounts and the final sum with the
  baseline is a double), the read of \<^verbatim>\<open>production\<close> returns the initial production
  plus the sum of the amounts; in the single-source variant the initial production is 0.
\<close>

theorem C1_production_is_exact_sum:
  assumes "is_double b" and "list_all is_double amounts"
    and "exact_sums 0 amounts" and "is_double (b + sum_list amounts)"
  shows "ms_production (ms_applyAll (ms_new [Number (Fin b)]) (map adjustment_of amounts)) =
           Inr (Number (Fin (spec_production b amounts))) \<and>
         (\<exists>p. ss_applyAll (ss_new args) (map adjustment_of amounts) = Inr p \<and>
              ss_production p = Number (Fin (spec_production 0 amounts)))"
proof
  from assms(3,4)
  show "ms_production (ms_applyAll (ms_new [Number (Fin b)]) (map adjustment_of amounts)) =
           Inr (Number (Fin (spec_production b amounts)))"
    unfolding spec_production_def by (rule ms_production_exact)
next
  from ss_production_exact [OF assms(3), of args]
  show "\<exists>p. ss_applyAll (ss_new args) (map adjustment_of amounts) = Inr p \<and>
              ss_production p = Number (Fin (spec_production 0 amounts))"
    by (simp add: spec_production_def)
qed

theorem C1_witness:
  "is_double 5 \<and> list_all is_double [- 3, 2] \<and> exact_sums 0 [- 3, 2] \<and>
   is_double (5 + sum_list [- 3, 2]) \<and>
   ms_production (ms_applyAll (ms_new [Number (Fin 5)]) (map adjustment_of [- 3, 2])) =
     Inr (Number (Fin (spec_production 5 [- 3, 2]))) \<and>
   (\<exists>p. ss_applyAll (ss_new []) (map adjustment_of [- 3, 2]) = Inr p \<and>
        ss_production p = Number (Fin (spec_production 0 [- 3, 2])))"
proof -
  have a: "is_double 5" by (rule is_double_small)
  have b: "list_all is_double [- 3, 2]" by (simp add: is_double_small)
  have c: "exact_sums 0 [- 3, 2]" by (simp add: is_double_small)
  have d: "is_double (5 + sum_list [- 3, 2])" by (simp add: is_double_small)
  from C1_production_is_exact_sum [OF a b c d, of "[]"] a b c d show ?thesis
    by blast
qed

text \<open>
  C1 as stated fails on large magnitudes. With baseline 0 and the amounts \<open>2\<^sup>5\<^sup>3\<close>, 1, 1 (all
  doubles, as is their sum \<open>2\<^sup>5\<^sup>3 + 2\<close>), each \<^verbatim>\<open>+ 1\<close> is rounded away and the read returns
  \<open>2\<^sup>5\<^sup>3 = 9007199254740992\<close>, in both variants.
\<close>

theorem C1_counterexample:
  "list_all is_double [9007199254740992, 1, 1] \<and>
   is_double (spec_production 0 [9007199254740992, 1, 1]) \<and>
   ms_production (ms_applyAll (ms_new [Number (Fin 0)])
       (map adjustment_of [9007199254740992, 1, 1])) = Inr (Number (Fin 9007199254740992)) \<and>
   ms_production (ms_applyAll (ms_new [Number (Fin 0)])
       (map adjustment_of [9007199254740992, 1, 1])) \<noteq>
     Inr (Number (Fin (spec_production 0 [9007199254740992, 1, 1]))) \<and>
   ss_applyAll (ss_new []) (map adjustment_of [9007199254740992, 1, 1]) =
     Inr \<lparr>ss_adjustments = map adjustment_of [9007199254740992, 1, 1],
          ss_stored_production = Number (Fin 9007199254740992)\<rparr> \<and>
   ss_production
     \<lparr>ss_adjustments = map adjustment_of [9007199254740992, 1, 1],
      ss_stored_production = Number (Fin 9007199254740992)\<rparr> \<noteq>
     Number (Fin (spec_production 0 [9007199254740992, 1, 1]))"
  by (simp add: is_double_def spec_production_def ms_production_def ms_new_def
      ms_applyAdjustment_def ss_new_def ss_applyAdjustment_def ss_production_def
      adjustment_of_def js_plus_def
      round_2_53 round_2_53_plus_1 round_2_53_plus_2 round_small)

text \<open>
  C8, as amended. Two orders of the same multiset of finite amounts give the same
  \<^verbatim>\<open>production\<close>, in both variants, provided no addition of the code rounds in either order.
\<close>

theorem C8_order_independent_when_exact:
  assumes "mset xs = mset ys"
    and "is_double b" and "list_all is_double xs"
    and "exact_sums 0 xs" and "exact_sums 0 ys"
    and "is_double (b + sum_list xs)"
  shows "ms_production (ms_applyAll (ms_new [Number (Fin b)]) (map adjustment_of xs)) =
         ms_production (ms_applyAll (ms_new [Number (Fin b)]) (map adjustment_of ys)) \<and>
         (\<exists>p q. ss_applyAll (ss_new args) (map adjustment_of xs) = Inr p \<and>
                ss_applyAll (ss_new args) (map adjustment_of ys) = Inr q \<and>
                ss_production p = ss_production q)"
proof -
  have eq: "sum_list xs = sum_list ys"
    using assms(1) by (rule sum_list_mset_cong)
  have "ms_production (ms_applyAll (ms_new [Number (Fin b)]) (map adjustment_of xs)) =
          Inr (Number (Fin (b + sum_list xs)))"
    using assms(4,6) by (rule ms_production_exact)
  moreover have "ms_production (ms_applyAll (ms_new [Number (Fin b)]) (map adjustment_of ys)) =
          Inr (Number (Fin (b + sum_list ys)))"
    using assms(5) assms(6) [unfolded eq] by (rule ms_production_exact)
  moreover obtain p where "ss_applyAll (ss_new args) (map adjustment_of xs) = Inr p"
    and "ss_production p = Number (Fin (sum_list xs))"
    using ss_production_exact [OF assms(4)] by blast
  moreover obtain q where "ss_applyAll (ss_new args) (map adjustment_of ys) = Inr q"
    and "ss_production q = Number (Fin (sum_list ys))"
    using ss_production_exact [OF assms(5)] by blast
  ultimately show ?thesis
    using eq by auto
qed

theorem C8_witness:
  "mset [- 3, 2 :: rat] = mset [2, - 3] \<and>
   is_double 5 \<and> list_all is_double [- 3, 2] \<and>
   exact_sums 0 [- 3, 2] \<and> exact_sums 0 [2, - 3] \<and>
   is_double (5 + sum_list [- 3, 2]) \<and>
   ms_production (ms_applyAll (ms_new [Number (Fin 5)]) (map adjustment_of [- 3, 2])) =
   ms_production (ms_applyAll (ms_new [Number (Fin 5)]) (map adjustment_of [2, - 3])) \<and>
   (\<exists>p q. ss_applyAll (ss_new []) (map adjustment_of [- 3, 2]) = Inr p \<and>
          ss_applyAll (ss_new []) (map adjustment_of [2, - 3]) = Inr q \<and>
          ss_production p = ss_production q)"
proof -
  have m: "mset [- 3, 2 :: rat] = mset [2, - 3]" by (simp add: add_mset_commute)
  have a: "is_double 5" by (rule is_double_small)
  have b: "list_all is_double [- 3, 2]" by (simp add: is_double_small)
  have c: "exact_sums 0 [- 3, 2]" by (simp add: is_double_small)
  have c': "exact_sums 0 [2, - 3]" by (simp add: is_double_small)
  have d: "is_double (5 + sum_list [- 3, 2])" by (simp add: is_double_small)
  from C8_order_independent_when_exact [OF m a b c c' d, of "[]"] m a b c c' d show ?thesis
    by blast
qed

text \<open>
  C8 as stated fails: \<^verbatim>\<open>+\<close> on doubles is not associative. On baseline 0 the amounts
  \<open>2\<^sup>5\<^sup>3\<close>, 1, 1 read \<open>2\<^sup>5\<^sup>3\<close>, and the same amounts as 1, 1, \<open>2\<^sup>5\<^sup>3\<close> read \<open>2\<^sup>5\<^sup>3 + 2\<close>.
\<close>

theorem C8_counterexample:
  "mset [9007199254740992, 1, 1 :: rat] = mset [1, 1, 9007199254740992] \<and>
   ms_production (ms_applyAll (ms_new [Number (Fin 0)])
       (map adjustment_of [9007199254740992, 1, 1])) = Inr (Number (Fin 9007199254740992)) \<and>
   ms_production (ms_applyAll (ms_new [Number (Fin 0)])
       (map adjustment_of [1, 1, 9007199254740992])) = Inr (Number (Fin 9007199254740994))"
  by (simp add: ms_production_def ms_new_def
      ms_applyAdjustment_def adjustment_of_def js_plus_def
      round_2_53 round_2_53_plus_1 round_2_53_plus_2 round_small)

section \<open>The stored production of the single-source variant\<close>

text \<open>
  C9. In every state that construction and a sequence of \<^verbatim>\<open>applyAdjustment\<close> calls
  reach, the stored production is what \<^verbatim>\<open>calculatedProduction\<close> computes from the
  adjustments, so the two getters return the same value.
\<close>

theorem C9_stored_production_agrees_with_query:
  assumes "ss_applyAll (ss_new args) as = Inr p"
  shows "ss_calculatedProduction p = Inr (ss_production p) \<and>
         ss_stored_production p = ss_production p"
proof -
  have "ss_calculatedProduction (ss_new args) = Inr (ss_stored_production (ss_new args))"
    by (simp add: ss_calculatedProduction_def ss_new_def)
  from this assms have "ss_calculatedProduction p = Inr (ss_stored_production p)"
    by (rule ss_applyAll_invariant)
  then show ?thesis by (simp add: ss_production_def)
qed

theorem C9_witness:
  "ss_applyAll (ss_new []) [adjustment_of 10] =
     Inr \<lparr>ss_adjustments = [adjustment_of 10], ss_stored_production = Number (Fin 10)\<rparr> \<and>
   ss_calculatedProduction
     \<lparr>ss_adjustments = [adjustment_of 10], ss_stored_production = Number (Fin 10)\<rparr> =
     Inr (ss_production
       \<lparr>ss_adjustments = [adjustment_of 10], ss_stored_production = Number (Fin 10)\<rparr>) \<and>
   ss_stored_production
     \<lparr>ss_adjustments = [adjustment_of 10], ss_stored_production = Number (Fin 10)\<rparr> =
     ss_production
       \<lparr>ss_adjustments = [adjustment_of 10], ss_stored_production = Number (Fin 10)\<rparr>"
proof -
  have a: "ss_applyAll (ss_new []) [adjustment_of 10] =
     Inr \<lparr>ss_adjustments = [adjustment_of 10], ss_stored_production = Number (Fin 10)\<rparr>"
    by (simp add: ss_applyAdjustment_def ss_new_def adjustment_of_def js_plus_def
        is_double_10 [unfolded is_double_def])
  from C9_stored_production_agrees_with_query [OF a] a show ?thesis
    by blast
qed

section \<open>Totality\<close>

text \<open>
  C6. Construction never fails, and in any sequence of calls on well-formed input (reads
  of the getters, updates with adjustment objects whose amount is a number) every call
  returns: no TypeError is reached, in either variant.
\<close>

theorem C6_operations_total_on_well_formed_input:
  assumes "list_all ms_wf_call mcalls" and "list_all ss_wf_call scalls"
  shows "list_all returns_normally (fst (ms_run (ms_new margs) mcalls)) \<and>
         list_all returns_normally (fst (ss_run (ss_new sargs) scalls))"
proof
  have "Nullish \<notin> set (ms_adjustments (ms_new margs))" by (simp add: ms_new_def)
  from this assms(1) show "list_all returns_normally (fst (ms_run (ms_new margs) mcalls))"
    by (rule ms_run_returns)
next
  have "Nullish \<notin> set (ss_adjustments (ss_new sargs))" by (simp add: ss_new_def)
  from this assms(2) show "list_all returns_normally (fst (ss_run (ss_new sargs) scalls))"
    by (rule ss_run_returns)
qed

theorem C6_witness:
  "list_all ms_wf_call [MsApplyAdjustment (adjustment_of 10), MsProduction] \<and>
   list_all ss_wf_call [SsApplyAdjustment (adjustment_of 10), SsProduction, SsCalculatedProduction] \<and>
   list_all returns_normally
     (fst (ms_run (ms_new [Number (Fin 10)]) [MsApplyAdjustment (adjustment_of 10), MsProduction])) \<and>
   list_all returns_normally
     (fst (ss_run (ss_new [])
        [SsApplyAdjustment (adjustment_of 10), SsProduction, SsCalculatedProduction]))"
proof -
  have a: "list_all ms_wf_call [MsApplyAdjustment (adjustment_of 10), MsProduction]"
    by (simp add: adjustment_of_def is_double_10)
  have b: "list_all ss_wf_call
      [SsApplyAdjustment (adjustment_of 10), SsProduction, SsCalculatedProduction]"
    by (simp add: adjustment_of_def is_double_10)
  from C6_operations_total_on_well_formed_input [OF a b] a b show ?thesis
    by blast
qed

end
